theory Spec2Isabelle
  imports Main "HOL-Library.Sublist"
begin

section \<open>Data model\<close>

text \<open>
  The chat server keeps one \<open>Hub\<close> (the file with \<open>Hub.Run\<close>) and one \<open>Client\<close> per
  websocket connection (client.go). Byte slices and Go strings are modelled as \<open>string\<close>, a
  \<open>*Client\<close> as an address, and \<open>time.Time\<close>/\<open>time.Duration\<close> as a number of
  nanoseconds.
\<close>

type_synonym bytes = string
type_synonym cptr = nat

record Message =
  ClientId :: string
  Text :: string

text \<open>The JSON payload of an inbound frame; \<open>Headers\<close> is kept as the raw value.\<close>

record WSMessage =
  Headers :: "bytes option"
  Text :: string

subsection \<open>Timing constants of client.go\<close>

definition Second :: int where
  "Second = 1000000000"

definition pongWait :: int where
  "pongWait = 60 * Second"

definition maxMessageSize :: int where
  "maxMessageSize = 512"

definition pingPeriod :: int where
  "pingPeriod = (pongWait * 9) div 10"

definition writeWait :: int where
  "writeWait = 10 * Second"

subsection \<open>Channels of byte slices\<close>

text \<open>
  A Go channel as the runtime keeps it: the buffered values, the capacity given to
  \<open>make\<close>, the closed flag and the number of receivers parked on the channel. A send
  that finds a parked receiver passes the value to it directly; \<open>ch_handed\<close> records the
  values passed that way, in order.
\<close>

record chan =
  ch_buf :: "bytes list"
  ch_cap :: nat
  ch_closed :: bool
  ch_recvq :: nat
  ch_handed :: "bytes list"

definition make_chan :: "nat \<Rightarrow> chan" where
  "make_chan n = \<lparr>ch_buf = [], ch_cap = n, ch_closed = False, ch_recvq = 0, ch_handed = []\<rparr>"

datatype send_result = Sent chan | WouldBlock | SendOnClosed

text \<open>
  \<open>select { case ch <- v: ... default: ... }\<close>: a send on a closed channel panics; with a
  parked receiver or a free buffer slot the send happens; otherwise the default branch
  is taken.
\<close>

definition try_send :: "chan \<Rightarrow> bytes \<Rightarrow> send_result" where
  "try_send ch v =
     (if ch_closed ch then SendOnClosed
      else if 0 < ch_recvq ch
        then Sent (ch\<lparr>ch_recvq := ch_recvq ch - 1, ch_handed := ch_handed ch @ [v]\<rparr>)
      else if length (ch_buf ch) < ch_cap ch
        then Sent (ch\<lparr>ch_buf := ch_buf ch @ [v]\<rparr>)
      else WouldBlock)"

text \<open>\<open>close(ch)\<close> panics on a closed channel (\<open>None\<close>); it releases the parked receivers.\<close>

definition close_chan :: "chan \<Rightarrow> chan option" where
  "close_chan ch =
     (if ch_closed ch then None else Some (ch\<lparr>ch_closed := True, ch_recvq := 0\<rparr>))"

text \<open>The channel can take one more value without blocking the sender.\<close>

definition accepts :: "chan \<Rightarrow> bool" where
  "accepts ch \<longleftrightarrow> 0 < ch_recvq ch \<or> length (ch_buf ch) < ch_cap ch"

subsection \<open>Connections\<close>

text \<open>
  The part of a \<open>websocket.Conn\<close> that client.go sets and uses: the read limit, the two
  deadlines, the handlers for ping and pong control frames, the frames written to the
  peer, and whether \<open>Close\<close> was called. A handler is either the one the connection
  starts with or the closure of \<open>readPump\<close> that sets the read deadline to
  \<open>time.Now().Add(pongWait)\<close>.
\<close>

datatype handler = DefaultHandler | ExtendReadDeadline

datatype frame = TextMessage bytes | CloseMessage bytes | PingMessage bytes | PongMessage bytes

record Conn =
  readLimit :: int
  readDeadline :: "int option"
  writeDeadline :: "int option"
  pingHandler :: handler
  pongHandler :: handler
  wire :: "frame list"
  conn_closed :: bool

subsection \<open>Clients and the hub\<close>

text \<open>
  \<open>serveWs\<close> makes a channel of its own for every client, so the state of the channel is
  kept in the client (field \<open>send\<close>). The field \<open>id\<close> is named \<open>cid\<close> here.
\<close>

record Client =
  cid :: string
  conn :: Conn
  send :: chan

text \<open>
  \<open>Hub\<close> has the registry and the history; its three channels carry the events of
  \<open>Run\<close> and are the \<open>event\<close> type below. Nothing but \<open>Run\<close> takes the hub's lock, so
  \<open>Lock\<close>/\<open>Unlock\<close> never wait and are left out. The state \<open>Run\<close> works on is the hub,
  the clients behind the pointers, and the lines printed by \<open>log\<close>.
\<close>

record Hub =
  clients :: "cptr \<rightharpoonup> bool"
  messages :: "Message list"

record state = Hub +
  heap :: "cptr \<Rightarrow> Client"
  logs :: "string list"

datatype status = Running | Panicked string | Exited string

text \<open>
  \<open>getMessageTemplate\<close> reads and executes a template file; it either returns the
  rendered bytes (\<open>Inr\<close>) or stops the process through \<open>log.Fatalf\<close> (\<open>Inl\<close>, the line
  logged).
\<close>

type_synonym renderer = "Message \<Rightarrow> string + bytes"

section \<open>The control loop \<open>Hub.Run\<close>\<close>

text \<open>
  \<open>NewHub\<close>: an empty registry and an empty history. The argument is the store of
  clients, which the hub reaches through the pointers it is sent.
\<close>

definition NewHub :: "(cptr \<Rightarrow> Client) \<Rightarrow> state" where
  "NewHub hp = \<lparr>clients = Map.empty, messages = [], heap = hp, logs = []\<rparr>"

definition set_send :: "cptr \<Rightarrow> chan \<Rightarrow> state \<Rightarrow> state" where
  "set_send c ch s = s\<lparr>heap := (heap s)(c := (heap s c)\<lparr>send := ch\<rparr>)\<rparr>"

text \<open>\<open>case client := <-h.register\<close>\<close>

definition on_register :: "state \<Rightarrow> cptr \<Rightarrow> status \<times> state" where
  "on_register s c =
     (Running, s\<lparr>clients := (clients s)(c \<mapsto> True),
                 logs := logs s @ [''client '' @ cid (heap s c) @ '' connected'']\<rparr>)"

text \<open>\<open>case client := <-h.unregister\<close>\<close>

definition on_unregister :: "state \<Rightarrow> cptr \<Rightarrow> status \<times> state" where
  "on_unregister s c =
     (case clients s c of
        None \<Rightarrow> (Running, s)
      | Some _ \<Rightarrow>
          (let s1 = s\<lparr>logs := logs s @ [''client '' @ cid (heap s c) @ '' disconnected'']\<rparr>
           in case close_chan (send (heap s1 c)) of
                None \<Rightarrow> (Panicked ''close of closed channel'', s1)
              | Some ch \<Rightarrow>
                  (Running, (set_send c ch s1)\<lparr>clients := (clients s1)(c := None)\<rparr>)))"

text \<open>
  The body of \<open>for client := range h.clients\<close>: the message is rendered, then offered to
  the client's channel without blocking; in the default branch the channel is closed
  and the client deleted from the registry.
\<close>

definition offer :: "renderer \<Rightarrow> Message \<Rightarrow> state \<Rightarrow> cptr \<Rightarrow> status \<times> state" where
  "offer render msg s c =
     (case render msg of
        Inl line \<Rightarrow> (Exited line, s\<lparr>logs := logs s @ [line]\<rparr>)
      | Inr bs \<Rightarrow>
          (case try_send (send (heap s c)) bs of
             SendOnClosed \<Rightarrow> (Panicked ''send on closed channel'', s)
           | Sent ch \<Rightarrow> (Running, set_send c ch s)
           | WouldBlock \<Rightarrow>
               (case close_chan (send (heap s c)) of
                  None \<Rightarrow> (Panicked ''close of closed channel'', s)
                | Some ch \<Rightarrow>
                    (Running, (set_send c ch s)\<lparr>clients := (clients s)(c := None)\<rparr>))))"

text \<open>
  The range loop visits the keys of the map in an order Go does not fix; \<open>ks\<close> is that
  order. The body deletes only the key it is visiting, so every key present when the
  loop starts is visited once.
\<close>

fun fanout :: "renderer \<Rightarrow> Message \<Rightarrow> cptr list \<Rightarrow> state \<Rightarrow> status \<times> state" where
  "fanout render msg [] s = (Running, s)"
| "fanout render msg (c # cs) s =
     (case offer render msg s c of
        (Running, s') \<Rightarrow> fanout render msg cs s'
      | (st, s') \<Rightarrow> (st, s'))"

text \<open>\<open>case msg := <-h.broadcast\<close>\<close>

definition on_broadcast :: "renderer \<Rightarrow> cptr list \<Rightarrow> state \<Rightarrow> Message \<Rightarrow> status \<times> state" where
  "on_broadcast render ks s msg = fanout render msg ks (s\<lparr>messages := messages s @ [msg]\<rparr>)"

datatype event = Register cptr | Unregister cptr | Broadcast Message

text \<open>One turn of the \<open>select\<close> of \<open>Run\<close>, for any order of the range loop.\<close>

inductive hub_step :: "renderer \<Rightarrow> state \<Rightarrow> event \<Rightarrow> status \<times> state \<Rightarrow> bool" where
  step_register: "hub_step render s (Register c) (on_register s c)"
| step_unregister: "hub_step render s (Unregister c) (on_unregister s c)"
| step_broadcast: "distinct ks \<Longrightarrow> set ks = dom (clients s) \<Longrightarrow>
     hub_step render s (Broadcast msg) (on_broadcast render ks s msg)"

text \<open>
  The loop \<open>for { select { ... } }\<close> over the events that arrive, until they are used up
  or the process stops.
\<close>

inductive hub_run :: "renderer \<Rightarrow> state \<Rightarrow> event list \<Rightarrow> status \<times> state \<Rightarrow> bool" where
  run_nil: "hub_run render s [] (Running, s)"
| run_cons: "hub_step render s e (Running, s1) \<Longrightarrow> hub_run render s1 es res \<Longrightarrow>
     hub_run render s (e # es) res"
| run_stop: "hub_step render s e (st, s1) \<Longrightarrow> st \<noteq> Running \<Longrightarrow>
     hub_run render s (e # es) (st, s1)"

text \<open>
  The registry invariant of the data model: a client in the registry has an open
  channel.
\<close>

definition hub_inv :: "state \<Rightarrow> bool" where
  "hub_inv s \<longleftrightarrow> (\<forall>c. clients s c \<noteq> None \<longrightarrow> \<not> ch_closed (send (heap s c)))"

section \<open>\<open>serveWs\<close>: a new client\<close>

text \<open>
  The connection as \<open>Upgrade\<close> returns it: no read limit, no deadlines, the library's
  own handlers. \<open>serveWs\<close> builds the client around it with an unbuffered channel
  (\<open>make(chan []byte)\<close>), sends it to the hub's register channel and starts the two
  pumps.
\<close>

definition newConn :: Conn where
  "newConn = \<lparr>readLimit = 0, readDeadline = None, writeDeadline = None,
     pingHandler = DefaultHandler, pongHandler = DefaultHandler, wire = [], conn_closed = False\<rparr>"

definition new_client :: "string \<Rightarrow> Conn \<Rightarrow> Client" where
  "new_client i cn = \<lparr>cid = i, conn = cn, send = make_chan 0\<rparr>"

section \<open>The inbound pump \<open>Client.readPump\<close>\<close>

text \<open>
  What the websocket library does with a control frame it reads: a ping goes to the
  handler set with \<open>SetPingHandler\<close>, a pong to the one set with \<open>SetPongHandler\<close>.
  The library's own ping handler answers with a pong, its own pong handler does
  nothing. \<open>now\<close> is the value of \<open>time.Now()\<close> when the handler runs.
\<close>

definition run_handler :: "handler \<Rightarrow> frame \<Rightarrow> int \<Rightarrow> Conn \<Rightarrow> Conn" where
  "run_handler h f now cn =
     (case h of
        ExtendReadDeadline \<Rightarrow> cn\<lparr>readDeadline := Some (now + pongWait)\<rparr>
      | DefaultHandler \<Rightarrow>
          (case f of
             PingMessage d \<Rightarrow> cn\<lparr>wire := wire cn @ [PongMessage d]\<rparr>
           | _ \<Rightarrow> cn))"

definition on_control :: "frame \<Rightarrow> int \<Rightarrow> Conn \<Rightarrow> Conn" where
  "on_control f now cn =
     (case f of
        PingMessage d \<Rightarrow> run_handler (pingHandler cn) f now cn
      | PongMessage d \<Rightarrow> run_handler (pongHandler cn) f now cn
      | _ \<Rightarrow> cn)"

text \<open>
  The three calls before the loop: \<open>SetReadLimit(maxMessageSize)\<close>,
  \<open>SetReadDeadline(time.Now().Add(pongWait))\<close> and \<open>SetPingHandler(...)\<close>.
\<close>

definition readPump_setup :: "int \<Rightarrow> Conn \<Rightarrow> Conn" where
  "readPump_setup now cn =
     cn\<lparr>readLimit := maxMessageSize,
        readDeadline := Some (now + pongWait),
        pingHandler := ExtendReadDeadline\<rparr>"

text \<open>
  \<open>json.NewDecoder(reader).Decode(&msg)\<close> is the standard library's: it gets the
  payload and the target \<open>msg\<close> (a pointer, \<open>None\<close> when nil) and gives back the target
  as it leaves it and the error, if any. It is a parameter of the pump.
\<close>

type_synonym decoder = "bytes \<Rightarrow> WSMessage option \<Rightarrow> WSMessage option \<times> string option"

text \<open>
  \<open>ReadMessage\<close> returns the payload, or an error; the flag says whether
  \<open>IsUnexpectedCloseError\<close> holds of it. With an error the payload is nil.
\<close>

datatype read_result = ReadOk bytes | ReadErr string bool

datatype action = Log string | BroadcastSend Message | UnregisterSend cptr | ConnClose

datatype pump = Pumping | Returned | Crashed

text \<open>
  One turn of the loop of \<open>readPump\<close>. \<open>msg.Text\<close> on a nil \<open>msg\<close> is a nil
  dereference (\<open>Crashed\<close>).
\<close>

definition readPump_iter ::
  "decoder \<Rightarrow> Client \<Rightarrow> read_result \<Rightarrow> action list \<times> pump" where
  "readPump_iter decode c rr =
     (case rr of
        ReadErr e unexpected \<Rightarrow>
          (Log ''value '' # (if unexpected then [Log (''error: '' @ e)] else []), Returned)
      | ReadOk text \<Rightarrow>
          (case decode text (Some \<lparr>Headers = None, Text = ''''\<rparr>) of
             (msg, err) \<Rightarrow>
               (let ls = Log (''value '' @ text) #
                      (case err of None \<Rightarrow> [] | Some e \<Rightarrow> [Log (''error: '' @ e)])
                in case msg of
                     None \<Rightarrow> (ls, Crashed)
                   | Some m \<Rightarrow>
                       (ls @ [BroadcastSend \<lparr>ClientId = cid c, Text = WSMessage.Text m\<rparr>],
                        Pumping))))"

text \<open>
  The loop over the results of the reads, in order; the deferred function closes the
  connection and sends the client to the unregister channel when the loop is left.
  With no read left the pump waits in \<open>ReadMessage\<close>.
\<close>

fun readPump_loop ::
  "decoder \<Rightarrow> cptr \<Rightarrow> Client \<Rightarrow> read_result list \<Rightarrow> action list \<times> pump" where
  "readPump_loop decode p c [] = ([], Pumping)"
| "readPump_loop decode p c (rr # rrs) =
     (case readPump_iter decode c rr of
        (as, Pumping) \<Rightarrow>
          (case readPump_loop decode p c rrs of (bs, st) \<Rightarrow> (as @ bs, st))
      | (as, st) \<Rightarrow> (as @ [ConnClose, UnregisterSend p], st))"

section \<open>The outbound pump \<open>Client.writePump\<close>\<close>

text \<open>
  The \<open>select\<close> of \<open>writePump\<close> either receives \<open>msg, ok\<close> from \<open>c.send\<close> or a tick.
  The client given to a turn is the client after that receive, so \<open>len(c.send)\<close> is
  the length of its buffer. Which of the writes fail is decided by the network.
\<close>

datatype select_case = FromSend bytes bool | Tick

record write_errors =
  nextWriter_fails :: bool
  close_fails :: bool
  ping_fails :: bool

definition no_errors :: write_errors where
  "no_errors = \<lparr>nextWriter_fails = False, close_fails = False, ping_fails = False\<rparr>"

text \<open>\<open>for i := 0; i < n; i++ { w.Write(msg) }\<close> with \<open>w\<close> the bytes written so far.\<close>

fun write_queued :: "nat \<Rightarrow> bytes \<Rightarrow> bytes \<Rightarrow> bytes" where
  "write_queued 0 msg w = w"
| "write_queued (Suc i) msg w = write_queued i msg (w @ msg)"

definition writePump_iter ::
  "int \<Rightarrow> write_errors \<Rightarrow> Client \<Rightarrow> select_case \<Rightarrow> Client \<times> pump" where
  "writePump_iter now env c sc =
     (let cn = (conn c)\<lparr>writeDeadline := Some (now + writeWait)\<rparr>;
          stop = (\<lambda>cn'. (c\<lparr>conn := cn'\<lparr>conn_closed := True\<rparr>\<rparr>, Returned))
      in case sc of
           FromSend msg ok \<Rightarrow>
             if \<not> ok then stop (cn\<lparr>wire := wire cn @ [CloseMessage []]\<rparr>)
             else if nextWriter_fails env then stop cn
             else
               (let w = write_queued (length (ch_buf (send c))) msg ([] @ msg)
                in if close_fails env then stop cn
                   else (c\<lparr>conn := cn\<lparr>wire := wire cn @ [TextMessage w]\<rparr>\<rparr>, Pumping))
         | Tick \<Rightarrow>
             if ping_fails env then stop cn
             else (c\<lparr>conn := cn\<lparr>wire := wire cn @ [PingMessage []]\<rparr>\<rparr>, Pumping))"

section \<open>Notions used in the statements\<close>

text \<open>The channel a client is left with by the body of the range loop.\<close>

definition after_offer :: "bytes \<Rightarrow> chan \<Rightarrow> chan" where
  "after_offer bs ch =
     (case try_send ch bs of
        Sent ch' \<Rightarrow> ch'
      | WouldBlock \<Rightarrow> ch\<lparr>ch_closed := True, ch_recvq := 0\<rparr>
      | SendOnClosed \<Rightarrow> ch)"

text \<open>
  From \<open>s\<close> to \<open>s'\<close> no client was added to the registry, and only clients of \<open>K\<close> were
  touched or had their channel closed.
\<close>

definition shrinks :: "cptr set \<Rightarrow> state \<Rightarrow> state \<Rightarrow> bool" where
  "shrinks K s s' \<longleftrightarrow>
     (\<forall>d. clients s' d \<noteq> None \<longrightarrow> clients s d \<noteq> None) \<and>
     (\<forall>d. d \<notin> K \<longrightarrow> heap s' d = heap s d) \<and>
     (\<forall>d. ch_closed (send (heap s' d)) \<longrightarrow> ch_closed (send (heap s d)) \<or> d \<in> K)"

fun registrations :: "event list \<Rightarrow> cptr list" where
  "registrations [] = []"
| "registrations (Register c # es) = c # registrations es"
| "registrations (e # es) = registrations es"

fun broadcasts :: "event list \<Rightarrow> Message list" where
  "broadcasts [] = []"
| "broadcasts (Broadcast m # es) = m # broadcasts es"
| "broadcasts (e # es) = broadcasts es"

definition panicked :: "status \<Rightarrow> bool" where
  "panicked st = (case st of Panicked x \<Rightarrow> True | _ \<Rightarrow> False)"

text \<open>
  The state in which the range loop over \<open>ks\<close>, started in \<open>s\<close>, gets to the body for
  client \<open>c\<close>; \<open>None\<close> when the loop never gets there (the client is not a key, or the
  process stopped at an earlier client).
\<close>

fun state_at :: "renderer \<Rightarrow> Message \<Rightarrow> cptr list \<Rightarrow> state \<Rightarrow> cptr \<Rightarrow> state option" where
  "state_at render msg [] s c = None"
| "state_at render msg (k # ks) s c =
     (if k = c then Some s
      else case offer render msg s k of
             (Running, s') \<Rightarrow> state_at render msg ks s' c
           | (st, s') \<Rightarrow> None)"

subsection \<open>Concrete inputs\<close>

text \<open>
  A renderer that always succeeds, and a hub with two clients made by \<open>serveWs\<close>:
  client 1 (id A) has no receiver waiting on its channel, client 2 (id B) has its
  outbound pump parked on the channel.
\<close>

definition plain_render :: renderer where
  "plain_render m = Inr (ClientId m @ '': '' @ Message.Text m)"

definition two_heap :: "cptr \<Rightarrow> Client" where
  "two_heap = (\<lambda>p. new_client ''anon'' newConn)
     (1 := new_client ''A'' newConn,
      2 := (new_client ''B'' newConn)\<lparr>send := (make_chan 0)\<lparr>ch_recvq := 1\<rparr>\<rparr>)"

definition two_clients :: state where
  "two_clients = \<lparr>clients = [1 \<mapsto> True, 2 \<mapsto> True], messages = [], heap = two_heap, logs = []\<rparr>"

definition hi_from_B :: Message where
  "hi_from_B = \<lparr>ClientId = ''B'', Text = ''hi''\<rparr>"

text \<open>
  The states of the run Register 1, Broadcast, on a new hub: client 1 registered, then
  evicted by the broadcast.
\<close>

definition one_registered :: state where
  "one_registered = snd (on_register (NewHub two_heap) 1)"

definition one_evicted :: state where
  "one_evicted = snd (on_broadcast plain_render [1] one_registered hi_from_B)"

text \<open>
  The state after the run Register 1, Unregister 1, Register 1 on a new hub: client 1 is
  in the registry again, with the channel the unregister closed.
\<close>

definition registered_again :: state where
  "registered_again =
     snd (on_register (snd (on_unregister (snd (on_register (NewHub two_heap) 1)) 1)) 1)"

text \<open>
  A registry of three clients: client 1 with a closed channel, client 2 with its
  outbound pump parked on the channel, client 3 with no receiver waiting.
\<close>

definition three_mixed :: state where
  "three_mixed =
     \<lparr>clients = [1 \<mapsto> True, 2 \<mapsto> True, 3 \<mapsto> True], messages = [],
      heap = two_heap(1 := (new_client ''A'' newConn)\<lparr>send := (make_chan 0)\<lparr>ch_closed := True\<rparr>\<rparr>),
      logs = []\<rparr>"

text \<open>
  The state after the run Register 1, Unregister 1, Register 1, Register 2 on a new
  hub: client 1 registered with a closed channel, client 2 registered with an open one.
\<close>

definition closed_and_open :: state where
  "closed_and_open = snd (on_register registered_again 2)"

text \<open>A renderer that cannot read its template.\<close>

definition failing_render :: renderer where
  "failing_render m = Inl ''template parsing: open templates/message.html: no such file or directory''"

text \<open>
  A client whose channel is buffered and holds one message behind the one just
  received.
\<close>

definition one_queued :: Client where
  "one_queued = (new_client ''A'' newConn)\<lparr>send := (make_chan 2)\<lparr>ch_buf := [''second'']\<rparr>\<rparr>"

text \<open>
  A stand-in for \<open>encoding/json\<close> at two kinds of payload. At the object with the key
  \<open>text\<close> twice, first a string and then a number, \<open>Decode\<close> stores the string, skips
  the number and returns the type error of the skipped field. Everything else is taken
  for a syntax error, where \<open>Decode\<close> returns before it writes to the target.
\<close>

definition dup_text_payload :: bytes where
  \<open>dup_text_payload = ''{"text":"hi","text":5}''\<close>

definition json_stand_in :: decoder where
  "json_stand_in text tgt =
     (if text = dup_text_payload
      then (map_option (\<lambda>m. m\<lparr>WSMessage.Text := ''hi''\<rparr>) tgt,
            Some ''json: cannot unmarshal number into Go struct field WSMessage.text of type string'')
      else (tgt, Some ''invalid character looking for beginning of value''))"

section \<open>Timing\<close>

text \<open>
  C8: the ping period is 9/10 of the pong wait, which is 54 seconds, and it is strictly
  smaller than the pong wait of 60 seconds.
\<close>

theorem pingPeriod_is_nine_tenths:
  "pingPeriod = 54 * Second \<and> pongWait = 60 * Second \<and> 10 * pingPeriod = 9 * pongWait
   \<and> pingPeriod < pongWait"
  by (simp add: pingPeriod_def pongWait_def Second_def)

section \<open>The fan-out of a broadcast\<close>

lemma offer_open:
  assumes "render msg = Inr bs" "\<not> ch_closed (send (heap s c))"
  shows "offer render msg s c =
     (Running, (set_send c (after_offer bs (send (heap s c))) s)
        \<lparr>clients := (if accepts (send (heap s c)) then clients s else (clients s)(c := None))\<rparr>)"
  using assms
  by (simp add: offer_def after_offer_def try_send_def close_chan_def accepts_def set_send_def)

text \<open>
  With a renderer that succeeds and open channels, the loop ends normally; every client
  it visits is left with the channel \<open>after_offer\<close> gives, and those whose channel did
  not accept are out of the registry.
\<close>

lemma fanout_open:
  assumes "render msg = Inr bs" "distinct ks" "\<forall>c \<in> set ks. \<not> ch_closed (send (heap s c))"
  shows "fst (fanout render msg ks s) = Running
     \<and> heap (snd (fanout render msg ks s)) =
         (\<lambda>c. if c \<in> set ks then (heap s c)\<lparr>send := after_offer bs (send (heap s c))\<rparr> else heap s c)
     \<and> clients (snd (fanout render msg ks s)) =
         (\<lambda>c. if c \<in> set ks \<and> \<not> accepts (send (heap s c)) then None else clients s c)
     \<and> messages (snd (fanout render msg ks s)) = messages s
     \<and> logs (snd (fanout render msg ks s)) = logs s"
  using assms(2,3)
proof (induction ks arbitrary: s)
  case Nil
  then show ?case by simp
next
  case (Cons k ks)
  define s1 where "s1 = (set_send k (after_offer bs (send (heap s k))) s)
        \<lparr>clients := (if accepts (send (heap s k)) then clients s else (clients s)(k := None))\<rparr>"
  have o: "offer render msg s k = (Running, s1)"
    using Cons.prems assms(1) by (simp add: offer_open s1_def)
  have d: "distinct ks" and nk: "k \<notin> set ks" using Cons.prems by auto
  have h1: "heap s1 = (heap s)(k := (heap s k)\<lparr>send := after_offer bs (send (heap s k))\<rparr>)"
    by (simp add: s1_def set_send_def)
  have c1: "clients s1 = (if accepts (send (heap s k)) then clients s else (clients s)(k := None))"
    by (simp add: s1_def set_send_def)
  have m1: "messages s1 = messages s" "logs s1 = logs s"
    by (simp_all add: s1_def set_send_def)
  have op: "\<forall>c \<in> set ks. \<not> ch_closed (send (heap s1 c))"
    using Cons.prems nk by (auto simp: h1)
  have f: "fanout render msg (k # ks) s = fanout render msg ks s1"
    using o by simp
  note ih = Cons.IH [OF d op]
  show ?case
    unfolding f using ih nk by (auto simp: h1 c1 m1 fun_eq_iff)
qed

lemma after_offer_cases:
  assumes "\<not> ch_closed ch"
  shows "(accepts ch \<and> try_send ch bs = Sent (after_offer bs ch)) \<or>
         (\<not> accepts ch \<and> try_send ch bs = WouldBlock \<and> close_chan ch = Some (after_offer bs ch))"
  using assms by (auto simp: after_offer_def try_send_def close_chan_def accepts_def)

lemma on_broadcast_open:
  assumes "render msg = Inr bs" "hub_inv s" "distinct ks" "set ks = dom (clients s)"
  shows "fst (on_broadcast render ks s msg) = Running
     \<and> heap (snd (on_broadcast render ks s msg)) =
         (\<lambda>c. if c \<in> set ks then (heap s c)\<lparr>send := after_offer bs (send (heap s c))\<rparr> else heap s c)
     \<and> clients (snd (on_broadcast render ks s msg)) =
         (\<lambda>c. if c \<in> set ks \<and> \<not> accepts (send (heap s c)) then None else clients s c)
     \<and> messages (snd (on_broadcast render ks s msg)) = messages s @ [msg]
     \<and> logs (snd (on_broadcast render ks s msg)) = logs s"
proof -
  let ?s0 = "s\<lparr>messages := messages s @ [msg]\<rparr>"
  have op: "\<forall>c \<in> set ks. \<not> ch_closed (send (heap ?s0 c))"
    using assms(2,4) by (auto simp: hub_inv_def)
  show ?thesis
    unfolding on_broadcast_def
    using fanout_open [where render = render and msg = msg, OF assms(1) assms(3) op]
    by (simp cong: if_cong)
qed

lemma two_clients_inv: "hub_inv two_clients"
  by (simp add: hub_inv_def two_clients_def two_heap_def new_client_def make_chan_def)

lemma two_clients_keys: "set [1, 2] = dom (clients two_clients)"
  by (auto simp: two_clients_def)

lemma render_hi: "plain_render hi_from_B = Inr ''B: hi''"
  by (simp add: plain_render_def hi_from_B_def)

lemma two_clients_sends:
  "try_send (send (heap two_clients 1)) ''B: hi'' = WouldBlock"
  "try_send (send (heap two_clients 2)) ''B: hi'' = Sent ((make_chan 0)\<lparr>ch_handed := [''B: hi'']\<rparr>)"
  by (simp_all add: two_clients_def two_heap_def new_client_def make_chan_def try_send_def)

lemma offer_frame:
  "d \<noteq> k \<Longrightarrow> heap (snd (offer render msg s k)) d = heap s d
     \<and> clients (snd (offer render msg s k)) d = clients s d"
  by (simp add: offer_def set_send_def split: sum.splits send_result.splits option.splits)

lemma fanout_frame:
  "d \<notin> set ks \<Longrightarrow> heap (snd (fanout render msg ks s)) d = heap s d
     \<and> clients (snd (fanout render msg ks s)) d = clients s d"
proof (induction ks arbitrary: s)
  case Nil
  then show ?case by simp
next
  case (Cons k ks)
  obtain st s1 where o: "offer render msg s k = (st, s1)" by (cases "offer render msg s k")
  have dk: "d \<noteq> k" and dks: "d \<notin> set ks" using Cons.prems by auto
  have f1: "heap s1 d = heap s d \<and> clients s1 d = clients s d"
    using offer_frame [OF dk, of render msg s] o by simp
  show ?case using Cons.IH [OF dks, of s1] o f1 by (cases st) simp_all
qed

text \<open>Until the loop gets to a client, it has not touched it.\<close>

lemma state_at_frame:
  "state_at render msg ks s c = Some s1 \<Longrightarrow>
     heap s1 c = heap s c \<and> clients s1 c = clients s c"
proof (induction ks arbitrary: s)
  case Nil
  then show ?case by simp
next
  case (Cons k ks)
  show ?case
  proof (cases "k = c")
    case True
    then show ?thesis using Cons.prems by simp
  next
    case False
    obtain st sk where o: "offer render msg s k = (st, sk)" by (cases "offer render msg s k")
    have r: "st = Running" using Cons.prems False o by (cases st) simp_all
    have a: "state_at render msg ks sk c = Some s1" using Cons.prems False o r by simp
    have f: "heap sk c = heap s c \<and> clients sk c = clients s c"
      using offer_frame [of c k render msg s] False o by simp
    show ?thesis using Cons.IH [OF a] f by simp
  qed
qed

text \<open>What the body leaves for a client is what the whole loop leaves for it.\<close>

lemma fanout_after:
  "distinct ks \<Longrightarrow> state_at render msg ks s c = Some s1 \<Longrightarrow>
     heap (snd (fanout render msg ks s)) c = heap (snd (offer render msg s1 c)) c
     \<and> clients (snd (fanout render msg ks s)) c = clients (snd (offer render msg s1 c)) c"
proof (induction ks arbitrary: s)
  case Nil
  then show ?case by simp
next
  case (Cons k ks)
  obtain st sk where o: "offer render msg s k = (st, sk)" by (cases "offer render msg s k")
  have d: "distinct ks" and nk: "k \<notin> set ks" using Cons.prems(1) by auto
  show ?case
  proof (cases "k = c")
    case True
    then have s1: "s1 = s" using Cons.prems(2) by simp
    show ?thesis
    proof (cases "st = Running")
      case True
      have "fanout render msg (k # ks) s = fanout render msg ks sk" using o True by simp
      then show ?thesis
        using fanout_frame [of c ks render msg sk] nk \<open>k = c\<close> o s1 by simp
    next
      case False
      then have "fanout render msg (k # ks) s = (st, sk)" using o by (cases st) simp_all
      then show ?thesis using \<open>k = c\<close> o s1 by simp
    qed
  next
    case False
    have r: "st = Running" using Cons.prems(2) False o by (cases st) simp_all
    have a: "state_at render msg ks sk c = Some s1" using Cons.prems(2) False o r by simp
    have "fanout render msg (k # ks) s = fanout render msg ks sk" using o r by simp
    then show ?thesis using Cons.IH [OF d a] by simp
  qed
qed

text \<open>With open channels and a renderer that returns, the loop gets to every key.\<close>

lemma state_at_open:
  assumes "render msg = Inr bs"
  shows "distinct ks \<Longrightarrow> \<forall>k \<in> set ks. \<not> ch_closed (send (heap s k)) \<Longrightarrow> c \<in> set ks \<Longrightarrow>
     state_at render msg ks s c \<noteq> None"
proof (induction ks arbitrary: s)
  case Nil
  then show ?case by simp
next
  case (Cons k ks)
  show ?case
  proof (cases "k = c")
    case True
    then show ?thesis by simp
  next
    case False
    have ok: "\<not> ch_closed (send (heap s k))" using Cons.prems(2) by simp
    obtain sk where o: "offer render msg s k = (Running, sk)"
      using offer_open [of render msg bs s k] assms ok by simp
    have d: "distinct ks" and nk: "k \<notin> set ks" using Cons.prems(1) by auto
    have op: "\<forall>j \<in> set ks. \<not> ch_closed (send (heap sk j))"
    proof
      fix j assume j: "j \<in> set ks"
      then have "j \<noteq> k" using nk by auto
      then have "heap sk j = heap s j" using offer_frame [of j k render msg s] o by simp
      then show "\<not> ch_closed (send (heap sk j))" using Cons.prems(2) j by simp
    qed
    have c: "c \<in> set ks" using Cons.prems(3) False by auto
    show ?thesis using Cons.IH [OF d op c] False o by simp
  qed
qed

lemma offer_would_block:
  assumes "render msg = Inr bs" "try_send (send (heap s c)) bs = WouldBlock"
  shows "\<exists>s2. offer render msg s c = (Running, s2)
     \<and> close_chan (send (heap s c)) = Some (send (heap s2 c))
     \<and> ch_closed (send (heap s2 c)) \<and> clients s2 c = None
     \<and> (\<forall>d. d \<noteq> c \<longrightarrow> heap s2 d = heap s d \<and> clients s2 d = clients s d)"
proof -
  have oc: "\<not> ch_closed (send (heap s c))"
    using assms(2) by (auto simp: try_send_def split: if_splits)
  show ?thesis
    using assms oc by (simp add: offer_def close_chan_def set_send_def)
qed

lemma offer_sent:
  assumes "render msg = Inr bs" "try_send (send (heap s d)) bs = Sent ch"
  shows "send (heap (snd (offer render msg s d)) d) = ch
     \<and> clients (snd (offer render msg s d)) d = clients s d
     \<and> bs \<in> set (ch_handed ch @ ch_buf ch) \<and> \<not> ch_closed ch"
proof -
  have "bs \<in> set (ch_handed ch @ ch_buf ch) \<and> \<not> ch_closed ch"
    using assms(2) by (auto simp: try_send_def split: if_splits)
  then show ?thesis using assms by (simp add: offer_def set_send_def)
qed

text \<open>
  C1: when a broadcast is handled and the range loop gets to a client whose channel
  cannot take the rendered message (the \<open>select\<close> falls to its default branch), the
  body for that client closes the channel and deletes the client from the registry,
  touches no other client, and ends without waiting; the client is still closed and
  out of the registry when the handling is over, however it ends. Every other client
  the loop gets to and whose send succeeds has the message on its channel, an open
  channel and its place in the registry when the handling is over. This holds from
  any state of the hub and for any order of the loop; where the registered clients
  all have open channels, the loop gets to every registered client and the handling
  ends normally.
\<close>

theorem backpressure_eviction:
  assumes "distinct ks" "render msg = Inr bs"
    and "state_at render msg ks (s\<lparr>messages := messages s @ [msg]\<rparr>) c = Some s1"
    and "try_send (send (heap s1 c)) bs = WouldBlock"
  shows "let s0 = s\<lparr>messages := messages s @ [msg]\<rparr>;
             s2 = snd (offer render msg s1 c);
             s' = snd (on_broadcast render ks s msg)
         in heap s1 c = heap s c \<and> clients s1 c = clients s c
          \<and> fst (offer render msg s1 c) = Running
          \<and> close_chan (send (heap s1 c)) = Some (send (heap s2 c))
          \<and> ch_closed (send (heap s2 c)) \<and> clients s2 c = None
          \<and> (\<forall>d. d \<noteq> c \<longrightarrow> heap s2 d = heap s1 d \<and> clients s2 d = clients s1 d)
          \<and> heap s' c = heap s2 c \<and> clients s' c = None
          \<and> (\<forall>d sd ch. state_at render msg ks s0 d = Some sd
                 \<and> try_send (send (heap sd d)) bs = Sent ch \<longrightarrow>
               heap sd d = heap s d \<and> send (heap s' d) = ch
               \<and> bs \<in> set (ch_handed ch @ ch_buf ch)
               \<and> \<not> ch_closed ch \<and> clients s' d = clients s d)
          \<and> (hub_inv s \<and> set ks = dom (clients s) \<longrightarrow>
               fst (on_broadcast render ks s msg) = Running
               \<and> (\<forall>d. clients s d \<noteq> None \<longrightarrow> state_at render msg ks s0 d \<noteq> None))"
proof -
  let ?s0 = "s\<lparr>messages := messages s @ [msg]\<rparr>"
  define s' where "s' = snd (on_broadcast render ks s msg)"
  define s2 where "s2 = snd (offer render msg s1 c)"
  have f: "snd (fanout render msg ks ?s0) = s'" by (simp add: s'_def on_broadcast_def)
  have fr: "heap s1 c = heap s c \<and> clients s1 c = clients s c"
    using state_at_frame [OF assms(3)] by simp
  have s2: "fst (offer render msg s1 c) = Running"
    "close_chan (send (heap s1 c)) = Some (send (heap s2 c))"
    "ch_closed (send (heap s2 c))" "clients s2 c = None"
    "\<forall>d. d \<noteq> c \<longrightarrow> heap s2 d = heap s1 d \<and> clients s2 d = clients s1 d"
    using offer_would_block [of render msg bs s1 c, OF assms(2) assms(4)]
    by (auto simp: s2_def)
  have fin: "heap s' c = heap s2 c \<and> clients s' c = None"
    using fanout_after [OF assms(1) assms(3)] f s2(4) by (simp add: s2_def)
  have others: "heap sd d = heap s d \<and> send (heap s' d) = ch \<and> bs \<in> set (ch_handed ch @ ch_buf ch)
      \<and> \<not> ch_closed ch \<and> clients s' d = clients s d"
    if d: "state_at render msg ks ?s0 d = Some sd" "try_send (send (heap sd d)) bs = Sent ch"
    for d sd ch
  proof -
    have fd: "heap sd d = heap s d \<and> clients sd d = clients s d"
      using state_at_frame [OF d(1)] by simp
    show ?thesis
      using fanout_after [OF assms(1) d(1)] f offer_sent [of render msg bs sd d ch, OF assms(2) d(2)] fd
      by simp
  qed
  have inv: "fst (on_broadcast render ks s msg) = Running
      \<and> (\<forall>d. clients s d \<noteq> None \<longrightarrow> state_at render msg ks ?s0 d \<noteq> None)"
    if i: "hub_inv s" "set ks = dom (clients s)"
  proof -
    have st: "fst (on_broadcast render ks s msg) = Running"
      using on_broadcast_open [of render msg bs s ks, OF assms(2) i(1) assms(1) i(2)] by simp
    have op: "\<forall>k \<in> set ks. \<not> ch_closed (send (heap ?s0 k))"
      using i by (auto simp: hub_inv_def)
    have "state_at render msg ks ?s0 d \<noteq> None" if "clients s d \<noteq> None" for d
    proof -
      have "d \<in> set ks" using that i(2) by auto
      then show ?thesis using state_at_open [of render msg bs, OF assms(2) assms(1) op] by blast
    qed
    then show ?thesis using st by blast
  qed
  show ?thesis
    unfolding Let_def s'_def [symmetric] s2_def [symmetric]
    using fr s2 fin others inv by blast
qed

lemma three_mixed_first:
  "state_at plain_render hi_from_B [2, 3, 1]
     (three_mixed\<lparr>messages := messages three_mixed @ [hi_from_B]\<rparr>) 2
   = Some (three_mixed\<lparr>messages := messages three_mixed @ [hi_from_B]\<rparr>)"
  by simp

lemma three_mixed_second:
  "state_at plain_render hi_from_B [2, 3, 1]
     (three_mixed\<lparr>messages := messages three_mixed @ [hi_from_B]\<rparr>) 3
   = Some (snd (offer plain_render hi_from_B
        (three_mixed\<lparr>messages := messages three_mixed @ [hi_from_B]\<rparr>) 2))"
  by (simp add: offer_def render_hi three_mixed_def two_heap_def new_client_def make_chan_def
      try_send_def)

lemma three_mixed_sends:
  "try_send (send (heap (snd (offer plain_render hi_from_B
        (three_mixed\<lparr>messages := messages three_mixed @ [hi_from_B]\<rparr>) 2)) 3)) ''B: hi''
   = WouldBlock"
  "try_send (send (heap (three_mixed\<lparr>messages := messages three_mixed @ [hi_from_B]\<rparr>) 2)) ''B: hi''
   = Sent ((make_chan 0)\<lparr>ch_handed := [''B: hi'']\<rparr>)"
  by (simp_all add: offer_def render_hi three_mixed_def two_heap_def new_client_def make_chan_def
      try_send_def set_send_def)

lemma three_mixed_panics:
  "fst (on_broadcast plain_render [2, 3, 1] three_mixed hi_from_B)
     = Panicked ''send on closed channel''"
  by (simp add: on_broadcast_def offer_def render_hi three_mixed_def two_heap_def new_client_def
      make_chan_def try_send_def close_chan_def set_send_def)

lemma two_clients_reached:
  "state_at plain_render hi_from_B [1, 2]
     (two_clients\<lparr>messages := messages two_clients @ [hi_from_B]\<rparr>) 1
   = Some (two_clients\<lparr>messages := messages two_clients @ [hi_from_B]\<rparr>)"
  by simp

text \<open>
  In \<open>three_mixed\<close> the loop visits client 2, which takes the message, then client 3,
  which cannot and is evicted, then client 1, where the send on the closed channel
  panics: client 3 is closed and out of the registry all the same, and client 2 has
  the message. In \<open>two_clients\<close> client 1 is evicted and the handling ends normally.
\<close>

theorem backpressure_eviction_witness:
  "clients three_mixed 1 = Some True \<and> ch_closed (send (heap three_mixed 1))
   \<and> clients three_mixed 3 = Some True
   \<and> fst (on_broadcast plain_render [2, 3, 1] three_mixed hi_from_B)
        = Panicked ''send on closed channel''
   \<and> ch_closed (send (heap (snd (on_broadcast plain_render [2, 3, 1] three_mixed hi_from_B)) 3))
   \<and> clients (snd (on_broadcast plain_render [2, 3, 1] three_mixed hi_from_B)) 3 = None
   \<and> ch_handed (send (heap (snd (on_broadcast plain_render [2, 3, 1] three_mixed hi_from_B)) 2))
        = [''B: hi'']
   \<and> clients (snd (on_broadcast plain_render [2, 3, 1] three_mixed hi_from_B)) 2 = Some True
   \<and> fst (on_broadcast plain_render [1, 2] two_clients hi_from_B) = Running
   \<and> ch_closed (send (heap (snd (on_broadcast plain_render [1, 2] two_clients hi_from_B)) 1))
   \<and> clients (snd (on_broadcast plain_render [1, 2] two_clients hi_from_B)) 1 = None"
proof -
  have d3: "distinct [2, 3, 1 :: nat]" and d2: "distinct [1, 2 :: nat]" by simp_all
  have c: "clients three_mixed 1 = Some True" "ch_closed (send (heap three_mixed 1))"
    "clients three_mixed 3 = Some True" "clients three_mixed 2 = Some True"
    by (simp_all add: three_mixed_def make_chan_def)
  note a = backpressure_eviction [of "[2, 3, 1]" plain_render hi_from_B "''B: hi''" three_mixed 3,
      OF d3 render_hi three_mixed_second three_mixed_sends(1), unfolded Let_def]
  have a3: "ch_closed (send (heap (snd (on_broadcast plain_render [2, 3, 1] three_mixed hi_from_B)) 3))
     \<and> clients (snd (on_broadcast plain_render [2, 3, 1] three_mixed hi_from_B)) 3 = None"
    using a by simp
  have a2: "send (heap (snd (on_broadcast plain_render [2, 3, 1] three_mixed hi_from_B)) 2)
       = (make_chan 0)\<lparr>ch_handed := [''B: hi'']\<rparr>
     \<and> clients (snd (on_broadcast plain_render [2, 3, 1] three_mixed hi_from_B)) 2
       = clients three_mixed 2"
    using a three_mixed_first three_mixed_sends(2) by blast
  have t: "fst (on_broadcast plain_render [2, 3, 1] three_mixed hi_from_B)
        = Panicked ''send on closed channel''
     \<and> ch_closed (send (heap (snd (on_broadcast plain_render [2, 3, 1] three_mixed hi_from_B)) 3))
     \<and> clients (snd (on_broadcast plain_render [2, 3, 1] three_mixed hi_from_B)) 3 = None
     \<and> ch_handed (send (heap (snd (on_broadcast plain_render [2, 3, 1] three_mixed hi_from_B)) 2))
        = [''B: hi'']
     \<and> clients (snd (on_broadcast plain_render [2, 3, 1] three_mixed hi_from_B)) 2 = Some True"
    using a3 a2 c(4) three_mixed_panics by (simp add: make_chan_def)
  have w: "try_send (send (heap (two_clients\<lparr>messages := messages two_clients @ [hi_from_B]\<rparr>) 1))
      ''B: hi'' = WouldBlock"
    using two_clients_sends(1) by simp
  note e = backpressure_eviction [of "[1, 2]" plain_render hi_from_B "''B: hi''" two_clients 1,
      OF d2 render_hi two_clients_reached w, unfolded Let_def]
  have u: "fst (on_broadcast plain_render [1, 2] two_clients hi_from_B) = Running
     \<and> ch_closed (send (heap (snd (on_broadcast plain_render [1, 2] two_clients hi_from_B)) 1))
     \<and> clients (snd (on_broadcast plain_render [1, 2] two_clients hi_from_B)) 1 = None"
    using e two_clients_inv two_clients_keys by simp
  show ?thesis using c(1-3) t u by blast
qed

text \<open>
  C2, as amended: when a message from the broadcast channel is handled in a state
  where every registered client has an open channel, and the renderer returns, the
  message is appended to the history and the rendered message is offered, by the
  non-blocking send, to every client in the registry at that moment: each of them
  either has the message sent on its channel and stays registered, or its channel
  refused and it is evicted. No client is left out; the one whose id is the message's
  \<open>ClientId\<close> is offered the message like the others.
\<close>

theorem fanout_reaches_every_client:
  assumes "render msg = Inr bs" "hub_inv s" "distinct ks" "set ks = dom (clients s)"
  shows "\<exists>s'. on_broadcast render ks s msg = (Running, s')
     \<and> messages s' = messages s @ [msg]
     \<and> (\<forall>c. clients s c \<noteq> None \<longrightarrow>
           (try_send (send (heap s c)) bs = Sent (send (heap s' c)) \<and> clients s' c = clients s c)
         \<or> (try_send (send (heap s c)) bs = WouldBlock
              \<and> close_chan (send (heap s c)) = Some (send (heap s' c)) \<and> clients s' c = None))"
proof -
  define s' where "s' = snd (on_broadcast render ks s msg)"
  note ob = on_broadcast_open [where render = render and msg = msg, OF assms(1-4), folded s'_def]
  have r: "on_broadcast render ks s msg = (Running, s')"
    using ob by (simp add: s'_def prod_eq_iff)
  have each: "(try_send (send (heap s c)) bs = Sent (send (heap s' c)) \<and> clients s' c = clients s c)
         \<or> (try_send (send (heap s c)) bs = WouldBlock
              \<and> close_chan (send (heap s c)) = Some (send (heap s' c)) \<and> clients s' c = None)"
    if c: "clients s c \<noteq> None" for c
  proof -
    have ck: "c \<in> set ks" using assms(4) c by auto
    have oc: "\<not> ch_closed (send (heap s c))" using assms(2) c by (simp add: hub_inv_def)
    show ?thesis using after_offer_cases [OF oc, of bs] ob ck by auto
  qed
  show ?thesis using r ob each by blast
qed

text \<open>The sender B is registered as client 2 and gets its own message.\<close>

theorem fanout_reaches_every_client_witness:
  "cid (heap two_clients 2) = ClientId hi_from_B
   \<and> clients two_clients 2 = Some True
   \<and> messages (snd (on_broadcast plain_render [1, 2] two_clients hi_from_B)) = [hi_from_B]
   \<and> ch_handed (send (heap (snd (on_broadcast plain_render [1, 2] two_clients hi_from_B)) 2))
       = [''B: hi'']
   \<and> clients (snd (on_broadcast plain_render [1, 2] two_clients hi_from_B)) 2 = Some True"
proof -
  have d: "distinct [1, 2 :: nat]" by simp
  have c2: "clients two_clients 2 = Some True" by (simp add: two_clients_def)
  have i2: "cid (heap two_clients 2) = ClientId hi_from_B"
    by (simp add: two_clients_def two_heap_def new_client_def hi_from_B_def)
  have m0: "messages two_clients = []" by (simp add: two_clients_def)
  from fanout_reaches_every_client [where render = plain_render and msg = hi_from_B,
      OF render_hi two_clients_inv d two_clients_keys]
  obtain s' where s': "on_broadcast plain_render [1, 2] two_clients hi_from_B = (Running, s')"
    "messages s' = messages two_clients @ [hi_from_B]"
    "\<forall>c. clients two_clients c \<noteq> None \<longrightarrow>
       (try_send (send (heap two_clients c)) ''B: hi'' = Sent (send (heap s' c))
          \<and> clients s' c = clients two_clients c)
     \<or> (try_send (send (heap two_clients c)) ''B: hi'' = WouldBlock
          \<and> close_chan (send (heap two_clients c)) = Some (send (heap s' c))
          \<and> clients s' c = None)"
    by blast
  have "try_send (send (heap two_clients 2)) ''B: hi'' = Sent (send (heap s' 2))
          \<and> clients s' 2 = clients two_clients 2"
    using s'(3) c2 two_clients_sends(2) by (metis option.distinct(1) send_result.distinct(1))
  then have "send (heap s' 2) = (make_chan 0)\<lparr>ch_handed := [''B: hi'']\<rparr> \<and> clients s' 2 = Some True"
    using two_clients_sends(2) c2 by simp
  then show ?thesis using s'(1,2) i2 c2 m0 by (simp add: make_chan_def)
qed

section \<open>The history\<close>

lemma offer_messages: "messages (snd (offer render msg s c)) = messages s"
  by (simp add: offer_def set_send_def split: sum.splits send_result.splits option.splits)

lemma fanout_messages: "messages (snd (fanout render msg ks s)) = messages s"
proof (induction ks arbitrary: s)
  case Nil
  then show ?case by simp
next
  case (Cons k ks)
  obtain st s1 where o: "offer render msg s k = (st, s1)" by (cases "offer render msg s k")
  have m: "messages s1 = messages s" using offer_messages [of render msg s k] o by simp
  show ?case using Cons.IH [of s1] o m by (cases st) simp_all
qed

lemma on_broadcast_messages:
  "messages (snd (on_broadcast render ks s msg)) = messages s @ [msg]"
  by (simp add: on_broadcast_def fanout_messages)

lemma on_register_messages: "messages (snd (on_register s c)) = messages s"
  by (simp add: on_register_def)

lemma on_unregister_messages: "messages (snd (on_unregister s c)) = messages s"
  by (simp add: on_unregister_def set_send_def Let_def split: option.splits)

lemma hub_step_messages:
  "hub_step render s e res \<Longrightarrow> messages (snd res) = messages s @ broadcasts [e]"
  by (induction rule: hub_step.induct)
     (simp_all add: on_register_messages on_unregister_messages on_broadcast_messages)

lemma broadcasts_Cons: "broadcasts (e # es) = broadcasts [e] @ broadcasts es"
  by (cases e) simp_all

lemma hub_run_messages:
  "hub_run render s es res \<Longrightarrow>
     prefix (messages s) (messages (snd res)) \<and>
     prefix (messages (snd res)) (messages s @ broadcasts es) \<and>
     (fst res = Running \<longrightarrow> messages (snd res) = messages s @ broadcasts es)"
proof (induction rule: hub_run.induct)
  case (run_nil render s)
  then show ?case by simp
next
  case (run_cons render s e s1 es res)
  have m: "messages s1 = messages s @ broadcasts [e]"
    using hub_step_messages [OF run_cons.hyps(1)] by simp
  show ?case
    using run_cons.IH by (auto simp: m broadcasts_Cons [of e es] elim: prefixE)
next
  case (run_stop render s e st s1 es)
  have m: "messages s1 = messages s @ broadcasts [e]"
    using hub_step_messages [OF run_stop.hyps(1)] by simp
  show ?case using run_stop.hyps(2) by (simp add: m broadcasts_Cons [of e es])
qed

text \<open>Building the steps of a concrete run.\<close>

lemma hub_step_registerI:
  "on_register s c = res \<Longrightarrow> hub_step render s (Register c) res"
  using step_register by blast

lemma hub_step_unregisterI:
  "on_unregister s c = res \<Longrightarrow> hub_step render s (Unregister c) res"
  using step_unregister by blast

lemma hub_step_broadcastI:
  "distinct ks \<Longrightarrow> set ks = dom (clients s) \<Longrightarrow> on_broadcast render ks s msg = res \<Longrightarrow>
     hub_step render s (Broadcast msg) res"
  using step_broadcast by blast

lemma one_registered_eq:
  "on_register (NewHub two_heap) 1 = (Running, one_registered)"
  by (simp add: one_registered_def on_register_def)

lemma one_registered_fields:
  "clients one_registered = [1 \<mapsto> True]" "heap one_registered = two_heap"
  "messages one_registered = []"
  by (simp_all add: one_registered_def on_register_def NewHub_def)

lemma one_evicted_eq:
  "on_broadcast plain_render [1] one_registered hi_from_B = (Running, one_evicted)"
proof -
  have i: "hub_inv one_registered"
    by (simp add: hub_inv_def one_registered_fields two_heap_def new_client_def make_chan_def)
  have k: "set [1] = dom (clients one_registered)"
    by (simp add: one_registered_fields)
  have d: "distinct [1 :: nat]" by simp
  have "fst (on_broadcast plain_render [1] one_registered hi_from_B) = Running"
    using on_broadcast_open [where render = plain_render and msg = hi_from_B, OF render_hi i d k]
    by simp
  then show ?thesis by (simp add: one_evicted_def prod_eq_iff)
qed

lemma one_evicted_fields:
  "clients one_evicted = Map.empty" "ch_closed (send (heap one_evicted 1))"
  "messages one_evicted = [hi_from_B]"
proof -
  have i: "hub_inv one_registered"
    by (simp add: hub_inv_def one_registered_fields two_heap_def new_client_def make_chan_def)
  have k: "set [1] = dom (clients one_registered)"
    by (simp add: one_registered_fields)
  have d: "distinct [1 :: nat]" by simp
  note ob = on_broadcast_open [where render = plain_render and msg = hi_from_B,
      OF render_hi i d k, folded one_evicted_def]
  have na: "\<not> accepts (send (heap one_registered 1))"
    by (simp add: one_registered_fields two_heap_def new_client_def make_chan_def accepts_def)
  show "clients one_evicted = Map.empty"
    using ob na by (auto simp: one_registered_fields fun_eq_iff)
  show "ch_closed (send (heap one_evicted 1))"
    using ob by (simp add: one_registered_fields two_heap_def new_client_def make_chan_def
        after_offer_def try_send_def)
  show "messages one_evicted = [hi_from_B]"
    using ob by (simp add: one_registered_fields)
qed

lemma run_register_broadcast_unregister:
  "hub_run plain_render (NewHub two_heap) [Register 1, Broadcast hi_from_B, Unregister 1]
     (Running, one_evicted)"
proof -
  have s1: "hub_step plain_render (NewHub two_heap) (Register 1) (Running, one_registered)"
    by (rule hub_step_registerI [OF one_registered_eq])
  have s2: "hub_step plain_render one_registered (Broadcast hi_from_B) (Running, one_evicted)"
    by (rule hub_step_broadcastI [OF _ _ one_evicted_eq]) (simp_all add: one_registered_fields)
  have "on_unregister one_evicted 1 = (Running, one_evicted)"
    by (simp add: on_unregister_def one_evicted_fields)
  then have s3: "hub_step plain_render one_evicted (Unregister 1) (Running, one_evicted)"
    by (rule hub_step_unregisterI)
  show ?thesis
    by (rule run_cons [OF s1], rule run_cons [OF s2], rule run_cons [OF s3], rule run_nil)
qed

text \<open>
  C3: the history is append-only. One turn of the loop leaves the history as it was
  on a register or an unregister and appends exactly the message on a broadcast,
  evictions included; over any sequence of events the old history is a prefix of the
  new one, so its length never decreases, and the new history is the old one followed
  by the broadcast messages handled, in order.
\<close>

theorem history_append_only:
  "(hub_step render s e (st, s1) \<longrightarrow> messages s1 = messages s @ broadcasts [e])
   \<and> (hub_run render s es (st', s') \<longrightarrow>
        prefix (messages s) (messages s') \<and> length (messages s) \<le> length (messages s')
        \<and> prefix (messages s') (messages s @ broadcasts es)
        \<and> (st' = Running \<longrightarrow> messages s' = messages s @ broadcasts es))"
  using hub_step_messages [of render s e "(st, s1)"] hub_run_messages [of render s es "(st', s')"]
  by (auto simp: prefix_length_le)

theorem history_append_only_witness:
  "hub_step plain_render (NewHub two_heap) (Register 1) (Running, one_registered)
   \<and> messages one_registered = messages (NewHub two_heap)
   \<and> hub_run plain_render (NewHub two_heap) [Register 1, Broadcast hi_from_B, Unregister 1]
        (Running, one_evicted)
   \<and> messages one_evicted = [hi_from_B]
   \<and> length (messages (NewHub two_heap)) \<le> length (messages one_evicted)"
proof -
  have s1: "hub_step plain_render (NewHub two_heap) (Register 1) (Running, one_registered)"
    by (rule hub_step_registerI [OF one_registered_eq])
  have m0: "messages (NewHub two_heap) = []" by (simp add: NewHub_def)
  show ?thesis
    using history_append_only [of plain_render "NewHub two_heap" "Register 1" Running
        one_registered "[Register 1, Broadcast hi_from_B, Unregister 1]" Running one_evicted]
      s1 run_register_broadcast_unregister m0
    by simp
qed

section \<open>Unregister and register\<close>

text \<open>
  C7, as amended: an unregister event for a client that is in the registry with its
  channel still open closes the channel and deletes the client from the registry,
  leaving the other clients and the history as they were; for a client not in the
  registry the event changes nothing at all.
\<close>

theorem unregister_closes_and_removes:
  "(clients s c = None \<longrightarrow> on_unregister s c = (Running, s))
   \<and> (clients s c \<noteq> None \<and> \<not> ch_closed (send (heap s c)) \<longrightarrow>
        (\<exists>s'. on_unregister s c = (Running, s')
           \<and> close_chan (send (heap s c)) = Some (send (heap s' c))
           \<and> ch_closed (send (heap s' c))
           \<and> clients s' c = None
           \<and> (\<forall>d. d \<noteq> c \<longrightarrow> heap s' d = heap s d \<and> clients s' d = clients s d)
           \<and> messages s' = messages s))"
  by (auto simp: on_unregister_def close_chan_def set_send_def Let_def)

theorem unregister_closes_and_removes_witness:
  "clients two_clients 3 = None
   \<and> on_unregister two_clients 3 = (Running, two_clients)
   \<and> clients two_clients 2 = Some True
   \<and> \<not> ch_closed (send (heap two_clients 2))
   \<and> fst (on_unregister two_clients 2) = Running
   \<and> ch_closed (send (heap (snd (on_unregister two_clients 2)) 2))
   \<and> clients (snd (on_unregister two_clients 2)) 2 = None
   \<and> clients (snd (on_unregister two_clients 2)) 1 = Some True"
proof -
  have a: "clients two_clients 3 = None" and p: "clients two_clients 2 = Some True"
    and q: "clients two_clients 1 = Some True"
    by (simp_all add: two_clients_def)
  have o: "\<not> ch_closed (send (heap two_clients 2))"
    by (simp add: two_clients_def two_heap_def new_client_def make_chan_def)
  have "on_unregister two_clients 3 = (Running, two_clients)"
    using unregister_closes_and_removes [of two_clients 3] a by simp
  moreover
  from unregister_closes_and_removes [of two_clients 2] p o
  obtain s' where "on_unregister two_clients 2 = (Running, s')"
    "ch_closed (send (heap s' 2))" "clients s' 2 = None"
    "\<forall>d. d \<noteq> 2 \<longrightarrow> heap s' d = heap two_clients d \<and> clients s' d = clients two_clients d"
    by auto
  ultimately show ?thesis using a p q o by simp
qed

text \<open>
  C9: a register event for a client that is already in the registry leaves the set of
  registered clients, the entries of the other clients, the history and the clients
  themselves as they were; the registry map itself is unchanged, since the value
  stored for a registered client is always \<open>true\<close>.
\<close>

theorem register_present_idempotent:
  assumes "clients s c \<noteq> None"
  shows "\<exists>s'. on_register s c = (Running, s')
     \<and> dom (clients s') = dom (clients s)
     \<and> (\<forall>d. d \<noteq> c \<longrightarrow> clients s' d = clients s d)
     \<and> (clients s c = Some True \<longrightarrow> clients s' = clients s)
     \<and> messages s' = messages s \<and> heap s' = heap s"
  using assms by (auto simp: on_register_def fun_eq_iff)

theorem register_present_idempotent_witness:
  "clients two_clients 1 = Some True
   \<and> fst (on_register two_clients 1) = Running
   \<and> clients (snd (on_register two_clients 1)) = clients two_clients
   \<and> messages (snd (on_register two_clients 1)) = messages two_clients
   \<and> heap (snd (on_register two_clients 1)) = heap two_clients"
proof -
  have p: "clients two_clients 1 = Some True" by (simp add: two_clients_def)
  then have "clients two_clients 1 \<noteq> None" by simp
  from register_present_idempotent [OF this] p show ?thesis by auto
qed

section \<open>No channel is closed twice\<close>

lemma offer_safe:
  assumes "\<not> ch_closed (send (heap s c))" "hub_inv s"
  shows "\<not> panicked (fst (offer render msg s c)) \<and> hub_inv (snd (offer render msg s c))
     \<and> shrinks {c} s (snd (offer render msg s c))"
  using assms
  by (auto simp: offer_def set_send_def hub_inv_def shrinks_def panicked_def try_send_def
      close_chan_def split: sum.splits)

lemma shrinks_trans:
  "shrinks K s s1 \<Longrightarrow> shrinks L s1 s2 \<Longrightarrow> shrinks (K \<union> L) s s2"
  unfolding shrinks_def by (metis UnCI)

lemma fanout_safe:
  assumes "distinct ks" "\<forall>c \<in> set ks. \<not> ch_closed (send (heap s c))" "hub_inv s"
  shows "\<not> panicked (fst (fanout render msg ks s)) \<and> hub_inv (snd (fanout render msg ks s))
     \<and> shrinks (set ks) s (snd (fanout render msg ks s))"
  using assms
proof (induction ks arbitrary: s)
  case Nil
  then show ?case by (simp add: panicked_def shrinks_def)
next
  case (Cons k ks)
  obtain st s1 where o: "offer render msg s k = (st, s1)" by (cases "offer render msg s k")
  have k: "\<not> ch_closed (send (heap s k))" using Cons.prems by simp
  have os: "\<not> panicked st" "hub_inv s1" "shrinks {k} s s1"
    using offer_safe [OF k Cons.prems(3), of render msg] o by simp_all
  show ?case
  proof (cases "st = Running")
    case True
    have d: "distinct ks" and nk: "k \<notin> set ks" using Cons.prems by auto
    have op: "\<forall>c \<in> set ks. \<not> ch_closed (send (heap s1 c))"
      using Cons.prems(2) nk os(3) unfolding shrinks_def by auto
    have ih: "\<not> panicked (fst (fanout render msg ks s1)) \<and> hub_inv (snd (fanout render msg ks s1))
       \<and> shrinks (set ks) s1 (snd (fanout render msg ks s1))"
      by (rule Cons.IH [OF d op os(2)])
    have f: "fanout render msg (k # ks) s = fanout render msg ks s1"
      using o True by simp
    have "shrinks ({k} \<union> set ks) s (snd (fanout render msg ks s1))"
      using shrinks_trans [OF os(3)] ih by blast
    then show ?thesis unfolding f using ih by simp
  next
    case False
    then have f: "fanout render msg (k # ks) s = (st, s1)"
      using o by (cases st) simp_all
    have "shrinks (set (k # ks)) s s1"
      using os(3) unfolding shrinks_def by auto
    then show ?thesis unfolding f using os by simp
  qed
qed

text \<open>
  One turn of the loop, from a state with the invariant, when the client of a register
  event has an open channel: no panic, the invariant again, the registry gains at most
  the registered client, and a channel is closed only for a client that was registered.
\<close>

lemma hub_step_safe:
  assumes "hub_step render s e res" "hub_inv s"
    "\<forall>c \<in> set (registrations [e]). \<not> ch_closed (send (heap s c))"
  shows "\<not> panicked (fst res) \<and> hub_inv (snd res)
     \<and> (\<forall>d. clients (snd res) d \<noteq> None \<longrightarrow> clients s d \<noteq> None \<or> e = Register d)
     \<and> (\<forall>d. ch_closed (send (heap (snd res) d)) \<longrightarrow>
            ch_closed (send (heap s d)) \<or> clients s d \<noteq> None)"
  using assms
proof (induction rule: hub_step.induct)
  case (step_register render s c)
  then show ?case
    by (auto simp: on_register_def hub_inv_def panicked_def)
next
  case (step_unregister render s c)
  then show ?case
    by (auto simp: on_unregister_def hub_inv_def panicked_def set_send_def close_chan_def Let_def
        split: option.splits)
next
  case (step_broadcast ks s render msg)
  let ?s0 = "s\<lparr>messages := messages s @ [msg]\<rparr>"
  have i0: "hub_inv ?s0" using step_broadcast.prems(1) by (simp add: hub_inv_def)
  have op: "\<forall>c \<in> set ks. \<not> ch_closed (send (heap ?s0 c))"
    using step_broadcast.prems(1) step_broadcast.hyps(2) by (auto simp: hub_inv_def)
  have fs: "\<not> panicked (fst (fanout render msg ks ?s0)) \<and> hub_inv (snd (fanout render msg ks ?s0))
     \<and> shrinks (set ks) ?s0 (snd (fanout render msg ks ?s0))"
    by (rule fanout_safe [OF step_broadcast.hyps(1) op i0])
  then show ?case
    using step_broadcast.hyps(2) unfolding on_broadcast_def shrinks_def by auto
qed

lemma hub_run_safe:
  assumes "hub_run render s es res" "hub_inv s" "distinct (registrations es)"
    "\<forall>c \<in> set (registrations es). clients s c = None \<and> \<not> ch_closed (send (heap s c))"
  shows "\<not> panicked (fst res) \<and> hub_inv (snd res)"
  using assms
proof (induction rule: hub_run.induct)
  case (run_nil render s)
  then show ?case by (simp add: panicked_def)
next
  case (run_cons render s e s1 es res)
  have r1: "\<forall>c \<in> set (registrations [e]). \<not> ch_closed (send (heap s c))"
    using run_cons.prems(3) by (cases e) auto
  note st = hub_step_safe [OF run_cons.hyps(1) run_cons.prems(1) r1]
  have i1: "hub_inv s1" using st by simp
  have d1: "distinct (registrations es)"
    using run_cons.prems(2) by (cases e) auto
  have f1: "\<forall>c \<in> set (registrations es). clients s1 c = None \<and> \<not> ch_closed (send (heap s1 c))"
  proof
    fix c assume c: "c \<in> set (registrations es)"
    then have ce: "c \<in> set (registrations (e # es))" by (cases e) auto
    have ne: "e \<noteq> Register c" using c run_cons.prems(2) by (cases e) auto
    have "clients s c = None" "\<not> ch_closed (send (heap s c))"
      using run_cons.prems(3) ce by blast+
    then show "clients s1 c = None \<and> \<not> ch_closed (send (heap s1 c))"
      using st ne by auto
  qed
  show ?case by (rule run_cons.IH [OF i1 d1 f1])
next
  case (run_stop render s e st s1 es)
  have r1: "\<forall>c \<in> set (registrations [e]). \<not> ch_closed (send (heap s c))"
    using run_stop.prems(3) by (cases e) auto
  show ?case using hub_step_safe [OF run_stop.hyps(1) run_stop.prems(1) r1] by simp
qed

lemma registered_again_fields:
  "clients registered_again 1 = Some True" "ch_closed (send (heap registered_again 1))"
  by (simp_all add: registered_again_def on_register_def on_unregister_def NewHub_def
      set_send_def close_chan_def two_heap_def new_client_def make_chan_def Let_def)

lemma registered_again_panics:
  "fst (on_unregister registered_again 1) = Panicked ''close of closed channel''"
  by (simp add: registered_again_def on_register_def on_unregister_def NewHub_def
      set_send_def close_chan_def two_heap_def new_client_def make_chan_def Let_def)

lemma run_register_twice:
  "hub_run plain_render (NewHub two_heap) [Register 1, Unregister 1, Register 1, Unregister 1]
     (on_unregister registered_again 1)"
proof -
  define s1 where "s1 = snd (on_register (NewHub two_heap) 1)"
  define s2 where "s2 = snd (on_unregister s1 1)"
  have e1: "on_register (NewHub two_heap) 1 = (Running, s1)"
    by (simp add: s1_def on_register_def)
  have e2: "on_unregister s1 1 = (Running, s2)"
    by (simp add: s2_def s1_def on_register_def on_unregister_def NewHub_def close_chan_def
        two_heap_def new_client_def make_chan_def Let_def)
  have e3: "on_register s2 1 = (Running, registered_again)"
    by (simp add: registered_again_def s2_def s1_def on_register_def)
  have p: "fst (on_unregister registered_again 1) \<noteq> Running"
    using registered_again_panics by simp
  have e4: "hub_step plain_render registered_again (Unregister 1)
      (fst (on_unregister registered_again 1), snd (on_unregister registered_again 1))"
    by (rule hub_step_unregisterI) simp
  have "hub_run plain_render registered_again [Unregister 1]
      (fst (on_unregister registered_again 1), snd (on_unregister registered_again 1))"
    by (rule run_stop [OF e4 p])
  then have r4: "hub_run plain_render registered_again [Unregister 1]
      (on_unregister registered_again 1)"
    by simp
  show ?thesis
    by (rule run_cons [OF hub_step_registerI [OF e1]],
        rule run_cons [OF hub_step_unregisterI [OF e2]],
        rule run_cons [OF hub_step_registerI [OF e3]], rule r4)
qed

text \<open>
  C10, as amended: over any sequence of events of the control loop in which every
  client is registered at most once, and only while it is outside the registry with
  its channel open (as \<open>serveWs\<close> does, once for each client it creates), no channel is
  closed a second time and none is sent on after its close: the loop never panics,
  and a registered client's channel is open throughout. Both places that close a
  channel do so for a registered client and delete it from the registry in the same
  turn.
\<close>

theorem mailbox_never_closed_twice:
  assumes "hub_run render s es (st, s')" "hub_inv s" "distinct (registrations es)"
    "\<forall>c \<in> set (registrations es). clients s c = None \<and> \<not> ch_closed (send (heap s c))"
  shows "st \<noteq> Panicked ''close of closed channel'' \<and> (\<forall>x. st \<noteq> Panicked x) \<and> hub_inv s'"
  using hub_run_safe [OF assms] by (auto simp: panicked_def)

text \<open>
  Register 1, Broadcast, Unregister 1: the broadcast evicts client 1 and closes its
  channel, the unregister that follows finds it absent and closes nothing.
\<close>

theorem mailbox_never_closed_twice_witness:
  "hub_run plain_render (NewHub two_heap) [Register 1, Broadcast hi_from_B, Unregister 1]
     (Running, one_evicted)
   \<and> hub_inv (NewHub two_heap)
   \<and> distinct (registrations [Register 1, Broadcast hi_from_B, Unregister 1])
   \<and> clients (NewHub two_heap) 1 = None
   \<and> \<not> ch_closed (send (heap (NewHub two_heap) 1))
   \<and> ch_closed (send (heap one_evicted 1))
   \<and> hub_inv one_evicted"
proof -
  have i: "hub_inv (NewHub two_heap)" by (simp add: hub_inv_def NewHub_def)
  have d: "distinct (registrations [Register 1, Broadcast hi_from_B, Unregister 1])" by simp
  have f: "clients (NewHub two_heap) 1 = None" "\<not> ch_closed (send (heap (NewHub two_heap) 1))"
    by (simp_all add: NewHub_def two_heap_def new_client_def make_chan_def)
  have fa: "\<forall>c \<in> set (registrations [Register 1, Broadcast hi_from_B, Unregister 1]).
      clients (NewHub two_heap) c = None \<and> \<not> ch_closed (send (heap (NewHub two_heap) c))"
    using f by simp
  have "hub_inv one_evicted"
    using mailbox_never_closed_twice [OF run_register_broadcast_unregister i d fa] by simp
  then show ?thesis
    using run_register_broadcast_unregister i d f one_evicted_fields(2) by simp
qed

text \<open>
  The claim as it stands, for any sequence of events: Register 1, Unregister 1,
  Register 1, Unregister 1 on a new hub puts the client back into the registry with
  its channel closed, and the second unregister closes that channel again.
\<close>

theorem reregistered_mailbox_closed_twice:
  "hub_run plain_render (NewHub two_heap) [Register 1, Unregister 1, Register 1, Unregister 1]
     (on_unregister registered_again 1)
   \<and> ch_closed (send (heap registered_again 1))
   \<and> fst (on_unregister registered_again 1) = Panicked ''close of closed channel''"
  using run_register_twice registered_again_fields(2) registered_again_panics by simp

section \<open>Handlings that stop early\<close>

lemma reregister_steps:
  "on_register (NewHub two_heap) 1 = (Running, snd (on_register (NewHub two_heap) 1))"
  "on_unregister (snd (on_register (NewHub two_heap) 1)) 1 =
     (Running, snd (on_unregister (snd (on_register (NewHub two_heap) 1)) 1))"
  "on_register (snd (on_unregister (snd (on_register (NewHub two_heap) 1)) 1)) 1 =
     (Running, registered_again)"
  "on_register registered_again 2 = (Running, closed_and_open)"
  by (simp_all add: registered_again_def closed_and_open_def on_register_def on_unregister_def
      NewHub_def close_chan_def two_heap_def new_client_def make_chan_def Let_def)

lemma run_to_registered_again:
  "hub_run plain_render (NewHub two_heap) [Register 1, Unregister 1, Register 1]
     (Running, registered_again)"
  by (rule run_cons [OF hub_step_registerI [OF reregister_steps(1)]],
      rule run_cons [OF hub_step_unregisterI [OF reregister_steps(2)]],
      rule run_cons [OF hub_step_registerI [OF reregister_steps(3)]], rule run_nil)

lemma run_to_closed_and_open:
  "hub_run plain_render (NewHub two_heap) [Register 1, Unregister 1, Register 1, Register 2]
     (Running, closed_and_open)"
  by (rule run_cons [OF hub_step_registerI [OF reregister_steps(1)]],
      rule run_cons [OF hub_step_unregisterI [OF reregister_steps(2)]],
      rule run_cons [OF hub_step_registerI [OF reregister_steps(3)]],
      rule run_cons [OF hub_step_registerI [OF reregister_steps(4)]], rule run_nil)

lemma closed_and_open_fields:
  "clients closed_and_open = [1 \<mapsto> True, 2 \<mapsto> True]"
  "messages closed_and_open = []"
  "ch_closed (send (heap closed_and_open 1))"
  "send (heap closed_and_open 2) = (make_chan 0)\<lparr>ch_recvq := 1\<rparr>"
  by (simp_all add: closed_and_open_def registered_again_def on_register_def on_unregister_def
      NewHub_def close_chan_def set_send_def two_heap_def new_client_def make_chan_def Let_def)

lemma closed_and_open_broadcast:
  "fst (on_broadcast plain_render [1, 2] closed_and_open hi_from_B)
     = Panicked ''send on closed channel''"
  "snd (on_broadcast plain_render [1, 2] closed_and_open hi_from_B)
     = closed_and_open\<lparr>messages := messages closed_and_open @ [hi_from_B]\<rparr>"
  using closed_and_open_fields(3)
  by (simp_all add: on_broadcast_def offer_def render_hi try_send_def)

lemma failing_render_broadcast:
  "on_broadcast failing_render [1, 2] two_clients hi_from_B =
     (Exited ''template parsing: open templates/message.html: no such file or directory'',
      two_clients\<lparr>messages := [hi_from_B],
        logs := [''template parsing: open templates/message.html: no such file or directory'']\<rparr>)"
  by (simp add: on_broadcast_def offer_def failing_render_def two_clients_def)

text \<open>
  The claim as it stands, for every message handled. After Register 1, Unregister 1,
  Register 1, Register 2 the registry holds client 1 with a closed channel and client 2
  with an open one on which the outbound pump waits; a broadcast whose loop visits
  client 1 first appends the message to the history and panics at the send, and
  client 2 is never offered the message. With a renderer that fails, the message is
  appended, the process exits at the first client, and no client is offered anything.
\<close>

theorem fanout_cut_short:
  "hub_run plain_render (NewHub two_heap) [Register 1, Unregister 1, Register 1, Register 2]
     (Running, closed_and_open)
   \<and> clients closed_and_open 2 = Some True
   \<and> send (heap closed_and_open 2) = (make_chan 0)\<lparr>ch_recvq := 1\<rparr>
   \<and> hub_step plain_render closed_and_open (Broadcast hi_from_B)
        (on_broadcast plain_render [1, 2] closed_and_open hi_from_B)
   \<and> fst (on_broadcast plain_render [1, 2] closed_and_open hi_from_B)
        = Panicked ''send on closed channel''
   \<and> messages (snd (on_broadcast plain_render [1, 2] closed_and_open hi_from_B)) = [hi_from_B]
   \<and> heap (snd (on_broadcast plain_render [1, 2] closed_and_open hi_from_B)) 2
        = heap closed_and_open 2
   \<and> hub_step failing_render two_clients (Broadcast hi_from_B)
        (on_broadcast failing_render [1, 2] two_clients hi_from_B)
   \<and> fst (on_broadcast failing_render [1, 2] two_clients hi_from_B)
        = Exited ''template parsing: open templates/message.html: no such file or directory''
   \<and> messages (snd (on_broadcast failing_render [1, 2] two_clients hi_from_B)) = [hi_from_B]
   \<and> heap (snd (on_broadcast failing_render [1, 2] two_clients hi_from_B)) = heap two_clients"
proof -
  have k: "set [1, 2] = dom (clients closed_and_open)"
    by (auto simp: closed_and_open_fields(1))
  have d: "distinct [1, 2 :: nat]" by simp
  have s1: "hub_step plain_render closed_and_open (Broadcast hi_from_B)
        (on_broadcast plain_render [1, 2] closed_and_open hi_from_B)"
    by (rule step_broadcast [OF d k])
  have s2: "hub_step failing_render two_clients (Broadcast hi_from_B)
        (on_broadcast failing_render [1, 2] two_clients hi_from_B)"
    by (rule step_broadcast [OF d two_clients_keys])
  have c2: "clients closed_and_open 2 = Some True"
    by (simp add: closed_and_open_fields(1))
  show ?thesis
    using run_to_closed_and_open c2 closed_and_open_fields(2,4) s1 s2
      closed_and_open_broadcast failing_render_broadcast
    by simp
qed

text \<open>
  The claim as it stands, for every unregister event: after Register 1, Unregister 1,
  Register 1 on a new hub client 1 is in the registry with a closed channel; its
  unregister panics at the close and leaves it in the registry.
\<close>

theorem unregister_of_closed_client_panics:
  "hub_run plain_render (NewHub two_heap) [Register 1, Unregister 1, Register 1]
     (Running, registered_again)
   \<and> clients registered_again 1 = Some True
   \<and> ch_closed (send (heap registered_again 1))
   \<and> fst (on_unregister registered_again 1) = Panicked ''close of closed channel''
   \<and> clients (snd (on_unregister registered_again 1)) 1 = Some True"
proof -
  have "clients (snd (on_unregister registered_again 1)) 1 = Some True"
    by (simp add: registered_again_def on_register_def on_unregister_def NewHub_def
        set_send_def close_chan_def two_heap_def new_client_def make_chan_def Let_def)
  then show ?thesis
    using run_to_registered_again registered_again_fields registered_again_panics by simp
qed

section \<open>The read deadline\<close>

lemma readPump_setup_fields:
  "readDeadline (readPump_setup now cn) = Some (now + pongWait)"
  "readLimit (readPump_setup now cn) = maxMessageSize"
  "pingHandler (readPump_setup now cn) = ExtendReadDeadline"
  "pongHandler (readPump_setup now cn) = pongHandler cn"
  by (simp_all add: readPump_setup_def)

text \<open>
  C4: at the start of the inbound pump the read deadline is set to now plus the pong
  wait of 60 seconds, as the claim says. The handler that extends the deadline is
  installed for pings, not for pongs: on a connection set up by \<open>readPump\<close> a ping
  from the peer at time \<open>t\<close> moves the deadline to \<open>t\<close> plus 60 seconds, and a pong,
  the peer's answer to the server's own pings, leaves it where it was. With the pump
  started at time 0 and a pong at 30 seconds the deadline stays at 60 seconds, where
  the claim has 90.
\<close>

theorem pong_does_not_extend_read_deadline:
  "readDeadline (readPump_setup now newConn) = Some (now + 60 * Second)
   \<and> pongHandler (readPump_setup now newConn) = DefaultHandler
   \<and> readDeadline (on_control (PingMessage d) t (readPump_setup now newConn))
       = Some (t + 60 * Second)
   \<and> readDeadline (on_control (PongMessage d) t (readPump_setup now newConn))
       = Some (now + 60 * Second)
   \<and> readDeadline (on_control (PongMessage []) (30 * Second) (readPump_setup 0 newConn))
       = Some (60 * Second)
   \<and> readDeadline (on_control (PongMessage []) (30 * Second) (readPump_setup 0 newConn))
       \<noteq> Some (30 * Second + pongWait)"
  by (simp add: readPump_setup_def on_control_def run_handler_def newConn_def pongWait_def
      Second_def)

section \<open>Coalescing in the outbound pump\<close>

lemma write_queued_replicate: "write_queued n msg w = w @ concat (replicate n msg)"
proof (induction n arbitrary: w)
  case 0
  then show ?case by simp
next
  case (Suc n)
  have "concat (replicate (Suc n) msg) = msg @ concat (replicate n msg)" by simp
  then show ?case using Suc.IH [of "w @ msg"] by simp
qed

lemma writePump_iter_message:
  "writePump_iter now no_errors c (FromSend msg True) =
     (c\<lparr>conn := (conn c)\<lparr>writeDeadline := Some (now + writeWait),
          wire := wire (conn c) @
            [TextMessage (msg @ concat (replicate (length (ch_buf (send c))) msg))]\<rparr>\<rparr>,
      Pumping)"
  by (simp add: writePump_iter_def no_errors_def write_queued_replicate Let_def)

text \<open>
  C5: after writing a message taken from the channel, the outbound pump is to write
  the messages queued on the channel at that moment, so that the frame is the first
  message followed by each queued one. The loop counts the queued messages but writes
  the first message again for each of them, and takes none of them off the channel:
  with \<open>first\<close> received and \<open>second\<close> queued, the frame written is \<open>firstfirst\<close>, not
  \<open>firstsecond\<close>, and \<open>second\<close> is still queued. In general the frame is the first
  message repeated once more for every queued message.
\<close>

theorem coalescing_repeats_first_message:
  "ch_buf (send one_queued) = [''second'']
   \<and> wire (conn (fst (writePump_iter 0 no_errors one_queued (FromSend ''first'' True))))
       = [TextMessage ''firstfirst'']
   \<and> wire (conn (fst (writePump_iter 0 no_errors one_queued (FromSend ''first'' True))))
       \<noteq> [TextMessage (''first'' @ concat (ch_buf (send one_queued)))]
   \<and> ch_buf (send (fst (writePump_iter 0 no_errors one_queued (FromSend ''first'' True))))
       = [''second'']
   \<and> snd (writePump_iter 0 no_errors one_queued (FromSend ''first'' True)) = Pumping
   \<and> wire (conn (fst (writePump_iter now no_errors c (FromSend msg True))))
       = wire (conn c) @ [TextMessage (msg @ concat (replicate (length (ch_buf (send c))) msg))]
   \<and> send (fst (writePump_iter now no_errors c (FromSend msg True))) = send c"
  by (simp add: writePump_iter_message one_queued_def new_client_def newConn_def make_chan_def)

section \<open>Frames that fail to decode\<close>

lemma readPump_iter_decode_error:
  assumes "decode text (Some \<lparr>Headers = None, Text = ''''\<rparr>) = (Some m, Some e)"
  shows "readPump_iter decode c (ReadOk text) =
     ([Log (''value '' @ text), Log (''error: '' @ e),
       BroadcastSend \<lparr>ClientId = cid c, Text = WSMessage.Text m\<rparr>], Pumping)"
  using assms by (simp add: readPump_iter_def)

text \<open>
  C6, as amended: for every inbound frame whose payload fails to decode (the decoder
  returns an error and leaves the target in place), the inbound pump neither leaves
  its loop nor crashes: it logs the error, sends to the broadcast channel a message
  whose \<open>ClientId\<close> is the receiving client's id and whose \<open>Text\<close> is the text the
  decoder left in the target, and goes on with the next read. The text is empty
  whenever the decoder left the target as it got it, as it does for a payload that is
  not well-formed JSON.
\<close>

theorem decode_failure_is_not_fatal:
  assumes "decode text (Some \<lparr>Headers = None, Text = ''''\<rparr>) = (Some m, Some e)"
  shows "readPump_iter decode c (ReadOk text) =
       ([Log (''value '' @ text), Log (''error: '' @ e),
         BroadcastSend \<lparr>ClientId = cid c, Text = WSMessage.Text m\<rparr>], Pumping)
     \<and> readPump_loop decode p c (ReadOk text # rrs) =
       ([Log (''value '' @ text), Log (''error: '' @ e),
         BroadcastSend \<lparr>ClientId = cid c, Text = WSMessage.Text m\<rparr>]
          @ fst (readPump_loop decode p c rrs),
        snd (readPump_loop decode p c rrs))
     \<and> (m = \<lparr>Headers = None, Text = ''''\<rparr> \<longrightarrow>
          readPump_iter decode c (ReadOk text) =
            ([Log (''value '' @ text), Log (''error: '' @ e),
              BroadcastSend \<lparr>ClientId = cid c, Text = ''''\<rparr>], Pumping))"
  using readPump_iter_decode_error [of decode _ m e c] assms
  by (auto split: prod.splits)

theorem decode_failure_is_not_fatal_witness:
  "json_stand_in ''not json'' (Some \<lparr>Headers = None, Text = ''''\<rparr>)
     = (Some \<lparr>Headers = None, Text = ''''\<rparr>,
        Some ''invalid character looking for beginning of value'')
   \<and> readPump_iter json_stand_in (new_client ''A'' newConn) (ReadOk ''not json'') =
       ([Log ''value not json'',
         Log ''error: invalid character looking for beginning of value'',
         BroadcastSend \<lparr>ClientId = ''A'', Text = ''''\<rparr>], Pumping)
   \<and> readPump_loop json_stand_in 1 (new_client ''A'' newConn) [ReadOk ''not json''] =
       ([Log ''value not json'',
         Log ''error: invalid character looking for beginning of value'',
         BroadcastSend \<lparr>ClientId = ''A'', Text = ''''\<rparr>], Pumping)"
proof -
  have d: "json_stand_in ''not json'' (Some \<lparr>Headers = None, Text = ''''\<rparr>)
     = (Some \<lparr>Headers = None, Text = ''''\<rparr>,
        Some ''invalid character looking for beginning of value'')"
    by (simp add: json_stand_in_def dup_text_payload_def)
  show ?thesis
    using decode_failure_is_not_fatal [of json_stand_in "''not json''" _ _
        "new_client ''A'' newConn" 1 "[]"] d
    by (simp add: new_client_def)
qed

text \<open>
  The claim as it stands: the payload with the key \<open>text\<close> twice fails to decode, and
  the message sent to the broadcast channel has the text \<open>hi\<close>, not the empty string.
\<close>

theorem decode_failure_keeps_decoded_text:
  "snd (json_stand_in dup_text_payload (Some \<lparr>Headers = None, Text = ''''\<rparr>))
     = Some ''json: cannot unmarshal number into Go struct field WSMessage.text of type string''
   \<and> readPump_iter json_stand_in (new_client ''A'' newConn) (ReadOk dup_text_payload) =
       ([Log (''value '' @ dup_text_payload),
         Log ''error: json: cannot unmarshal number into Go struct field WSMessage.text of type string'',
         BroadcastSend \<lparr>ClientId = ''A'', Text = ''hi''\<rparr>], Pumping)"
  by (simp add: readPump_iter_def json_stand_in_def new_client_def)

end
